theory Spec2Isabelle
  imports Complex_Main "HOL-Library.Word"
begin

section \<open>The byte mutator (fuzzers/simple/cpp/simple-fuzzer.cpp)\<close>

subsection \<open>Machine types\<close>

text \<open>
  The program is modelled for an LP64 platform: \<open>char\<close> is one byte, \<open>int\<close> has 32 bits,
  \<open>size_t\<close> has 64 bits. The loop counter \<open>int i\<close> is a 32-bit word read as two's
  complement; \<open>i++\<close> is word addition, so that incrementing \<open>INT_MAX\<close> gives \<open>INT_MIN\<close>.
  ISO C++ gives that one increment no meaning at all (signed overflow is undefined); the
  model takes the result the machine's addition gives.
\<close>

type_synonym byte = "8 word"
type_synonym c_int = "32 word"
type_synonym size_t = "64 word"

text \<open>
  The comparison \<open>i < data.length()\<close> has an \<open>int\<close> on the left and a \<open>size_t\<close> on the
  right: the usual arithmetic conversions turn the \<open>int\<close> into a \<open>size_t\<close>
  (sign extension), and the comparison is unsigned.
\<close>

definition to_size_t :: "c_int \<Rightarrow> size_t" where
  "to_size_t i = scast i"

text \<open>\<open>std::string\<close> over bytes: \<open>length()\<close> and the store \<open>data[i] = c\<close>.\<close>

definition string_length :: "byte list \<Rightarrow> size_t" where
  "string_length data = of_nat (length data)"

definition string_set :: "byte list \<Rightarrow> size_t \<Rightarrow> byte \<Rightarrow> byte list" where
  "string_set data i c = data[unat i := c]"

subsection \<open>The mutation loop\<close>

text \<open>
  \<open>rand()\<close> belongs to the C library, not to the repository: it is a parameter of the
  model, a function from the generator state to a draw and the next state. A draw lies
  between 0 and \<open>RAND_MAX\<close>, so it is a \<open>nat\<close>. The loop of \<open>main\<close>:
  \<^verbatim>\<open>
  for (int i = 0; i < data.length(); i++) {
      if (rand() % 2 == 0) {
          char c = (char)(rand() % 256);
          data[i] = c;
      }
  }
  \<close>
\<close>

function mutate_loop :: "('g \<Rightarrow> nat \<times> 'g) \<Rightarrow> c_int \<Rightarrow> byte list \<Rightarrow> 'g \<Rightarrow> byte list \<times> 'g" where
  "mutate_loop rand i data g =
     (if to_size_t i < string_length data then
        (case rand g of (r, g1) \<Rightarrow>
           if r mod 2 = 0 then
             (case rand g1 of (v, g2) \<Rightarrow>
                mutate_loop rand (i + 1) (string_set data (to_size_t i) (of_nat (v mod 256))) g2)
           else mutate_loop rand (i + 1) data g1)
      else (data, g))"
  by pat_completeness auto

text \<open>
  The loop terminates for every string: a counter that keeps passing the guard reaches
  \<open>-1\<close> after fewer than \<open>2 ^ 32\<close> increments, and \<open>-1\<close> converts to the largest
  \<open>size_t\<close>, which is below no length.
\<close>

termination mutate_loop
proof (relation "measure (\<lambda>(rand, i, data, g). unat (- 1 - i))")
  show "wf (measure (\<lambda>(rand :: 'a \<Rightarrow> nat \<times> 'a, i :: c_int, data :: byte list, g :: 'a). unat (- 1 - i)))"
    by simp
next
  fix rand :: "'a \<Rightarrow> nat \<times> 'a" and i :: c_int and data :: "byte list" and g g2 :: 'a and v :: nat
  assume guard: "to_size_t i < string_length data"
  have "i \<noteq> - 1"
  proof
    assume "i = - 1"
    then have "(- 1 :: size_t) < string_length data" using guard by (simp add: to_size_t_def)
    then show False by simp
  qed
  then have "- 1 - i \<noteq> 0" by simp
  moreover have "- 1 - (i + 1) = (- 1 - i) - 1" by simp
  ultimately have "unat (- 1 - (i + 1)) < unat (- 1 - i)"
    by (metis unat_minus_one diff_less unat_gt_0 zero_less_one)
  then show "((rand, i + 1, string_set data (to_size_t i) (of_nat (v mod 256)), g2), (rand, i, data, g))
        \<in> measure (\<lambda>(rand, i, data, g). unat (- 1 - i))"
    by simp
next
  fix rand :: "'a \<Rightarrow> nat \<times> 'a" and i :: c_int and data :: "byte list" and g g1 :: 'a
  assume guard: "to_size_t i < string_length data"
  have "i \<noteq> - 1"
  proof
    assume "i = - 1"
    then have "(- 1 :: size_t) < string_length data" using guard by (simp add: to_size_t_def)
    then show False by simp
  qed
  then have "- 1 - i \<noteq> 0" by simp
  moreover have "- 1 - (i + 1) = (- 1 - i) - 1" by simp
  ultimately have "unat (- 1 - (i + 1)) < unat (- 1 - i)"
    by (metis unat_minus_one diff_less unat_gt_0 zero_less_one)
  then show "((rand, i + 1, data, g1), (rand, i, data, g)) \<in> measure (\<lambda>(rand, i, data, g). unat (- 1 - i))"
    by simp
qed

declare mutate_loop.simps [simp del]

text \<open>The loop starts at \<open>i = 0\<close>.\<close>

definition mutate :: "('g \<Rightarrow> nat \<times> 'g) \<Rightarrow> byte list \<Rightarrow> 'g \<Rightarrow> byte list \<times> 'g" where
  "mutate rand data g = mutate_loop rand 0 data g"

subsection \<open>The program\<close>

text \<open>
  What an invocation leaves behind: the exit status, the bytes written to \<open>cout\<close> and
  the characters written to \<open>cerr\<close>.
\<close>

record outcome =
  exit_status :: int
  stdout :: "byte list"
  stderr :: string

text \<open>\<open>endl\<close> writes a line feed: as a character on \<open>cerr\<close>, as a byte on \<open>cout\<close>.\<close>

definition endl :: string where
  "endl = [CHR 0x0A]"

definition newline :: byte where
  "newline = 10"

text \<open>
  \<open>main\<close> depends on its environment through four things, all parameters here:
  \<^item> \<open>srand\<close> and \<open>rand\<close>, the generator of the C library: \<open>srand\<close> sets the state from an
    \<open>unsigned int\<close> seed;
  \<^item> \<open>now\<close>, the value of \<open>time(NULL)\<close>, converted to the \<open>unsigned int\<close> that \<open>srand\<close> takes;
  \<^item> \<open>open_file\<close>, the file system: the bytes read from the file at a path, or \<open>None\<close>
    when \<open>is_open()\<close> is false;
  \<^item> the argument vector \<open>argv = prog # args\<close>, whose first entry is the program name,
    and \<open>argc\<close>, its length.
  \<^verbatim>\<open>
  if (argc != 2) { cerr << "Usage: " << argv[0] << " <input_file>" << endl; return 1; }
  srand(time(NULL));
  ifstream input(argv[1]);
  if (!input.is_open()) {
      cerr << "Error: Unable to open input file " << argv[1] << endl; return 1; }
  string data((istreambuf_iterator<char>(input)), istreambuf_iterator<char>());
  ... the loop ...
  cout << data << endl;
  return 0;
  \<close>
\<close>

definition main :: "(32 word \<Rightarrow> 'g) \<Rightarrow> ('g \<Rightarrow> nat \<times> 'g) \<Rightarrow> int \<Rightarrow> (string \<Rightarrow> byte list option)
    \<Rightarrow> string \<Rightarrow> string list \<Rightarrow> outcome" where
  "main srand rand now open_file prog args =
     (let argv = prog # args; argc = int (length argv) in
      if argc \<noteq> 2 then
        \<lparr>exit_status = 1, stdout = [], stderr = ''Usage: '' @ argv ! 0 @ '' <input_file>'' @ endl\<rparr>
      else
        (let g = srand (word_of_int now) in
         case open_file (argv ! 1) of
           None \<Rightarrow>
             \<lparr>exit_status = 1, stdout = [],
              stderr = ''Error: Unable to open input file '' @ argv ! 1 @ endl\<rparr>
         | Some data \<Rightarrow>
             (case mutate rand data g of
                (data', g') \<Rightarrow> \<lparr>exit_status = 0, stdout = data' @ [newline], stderr = []\<rparr>)))"

subsection \<open>The mutation as the specification words it\<close>

text \<open>
  One pass over the bytes from left to right. At each byte one draw decides: an odd draw
  keeps the byte and draws nothing more; an even draw takes one further draw and puts
  that draw modulo 256 in the byte's place.
\<close>

fun mutate_spec :: "('g \<Rightarrow> nat \<times> 'g) \<Rightarrow> byte list \<Rightarrow> 'g \<Rightarrow> byte list \<times> 'g" where
  "mutate_spec rand [] g = ([], g)"
| "mutate_spec rand (b # bs) g =
     (case rand g of (r, g1) \<Rightarrow>
        if r mod 2 = 1 then
          (case mutate_spec rand bs g1 of (bs', g') \<Rightarrow> (b # bs', g'))
        else
          (case rand g1 of (v, g2) \<Rightarrow>
             (case mutate_spec rand bs g2 of (bs', g') \<Rightarrow> (of_nat (v mod 256) # bs', g'))))"

subsection \<open>Concrete generators\<close>

text \<open>
  Three generators to run the program on: one that replays a recorded list of draws (and
  draws 0 once the list is used up), one that always draws 0 and counts its draws, and
  one whose draws count up from the seed.
\<close>

fun rand_list :: "nat list \<Rightarrow> nat \<times> nat list" where
  "rand_list [] = (0, [])"
| "rand_list (x # xs) = (x, xs)"

definition zero_rand :: "nat \<Rightarrow> nat \<times> nat" where
  "zero_rand n = (0, Suc n)"

definition counter_srand :: "32 word \<Rightarrow> nat" where
  "counter_srand seed = unat seed"

definition counter_rand :: "nat \<Rightarrow> nat \<times> nat" where
  "counter_rand n = (n, Suc n)"

text \<open>The number of byte positions the 32-bit counter reaches before it wraps.\<close>

definition visited :: "byte list \<Rightarrow> nat" where
  "visited data = min (length data) (2 ^ 31)"

text \<open>
  The draws that the first \<open>k\<close> byte positions consume, in the specification's words: one
  odd draw for a position that is kept, an even draw and one more for a position that is
  replaced. \<open>draws_for k ds\<close> holds when \<open>ds\<close> is such a history, neither shorter nor longer.
\<close>

fun draws_for :: "nat \<Rightarrow> nat list \<Rightarrow> bool" where
  "draws_for 0 ds = (ds = [])"
| "draws_for (Suc k) [] = False"
| "draws_for (Suc k) (r # ds) =
     (if r mod 2 = 1 then draws_for k ds
      else (case ds of [] \<Rightarrow> False | v # ds' \<Rightarrow> draws_for k ds'))"

section \<open>Properties\<close>

subsection \<open>The counter as a \<open>size_t\<close>\<close>

text \<open>
  A counter between 0 and \<open>INT_MAX\<close> converts to itself. The counter that has wrapped to
  \<open>INT_MIN\<close> converts to \<open>2 ^ 64 - 2 ^ 31\<close>, which no length of a string in memory exceeds.
\<close>

lemma to_size_t_nonneg:
  assumes "k < 2 ^ 31"
  shows "to_size_t (of_nat k) = of_nat k"
proof -
  have "sint (of_nat k :: c_int) = signed_take_bit 31 (int k)"
    by (simp add: signed_of_nat)
  also have "\<dots> = int k"
    using assms by (intro signed_take_bit_int_eq_self) auto
  finally show ?thesis
    by (simp add: to_size_t_def scast_eq)
qed

lemma to_size_t_int_min: "to_size_t (of_nat (2 ^ 31)) = of_nat (2 ^ 64 - 2 ^ 31)"
  unfolding to_size_t_def by simp

lemma size_t_less: 
  assumes "k < 2 ^ 64" "n < 2 ^ 64"
  shows "(of_nat k :: size_t) < of_nat n \<longleftrightarrow> k < n"
  using assms by (simp add: word_of_nat_less_iff take_bit_nat_eq_self)

lemma loop_guard_below:
  assumes "k < 2 ^ 31" "length data < 2 ^ 64"
  shows "to_size_t (of_nat k) < string_length data \<longleftrightarrow> k < length data"
proof -
  have "k < 2 ^ 64" using assms(1) by simp
  then show ?thesis using assms(2)
   by (simp add: to_size_t_nonneg [OF assms(1)] string_length_def size_t_less)
qed

lemma loop_guard_wrapped:
  assumes "length data \<le> 2 ^ 64 - 2 ^ 31"
  shows "\<not> to_size_t (of_nat (2 ^ 31)) < string_length data"
proof -
  have "length data < 2 ^ 64" using assms by simp
  then show ?thesis using assms
   unfolding to_size_t_int_min string_length_def
   by (subst size_t_less) auto
qed

lemma string_set_below:
  assumes "k < 2 ^ 31"
  shows "string_set data (to_size_t (of_nat k)) c = data[k := c]"
proof -
  have "k < 2 ^ 64" using assms by simp
  then show ?thesis
    by (simp add: string_set_def to_size_t_nonneg [OF assms] unat_of_nat)
qed

lemma visited_update [simp]: "visited (data[k := c]) = visited data"
  by (simp add: visited_def)

subsection \<open>The loop against the left-to-right pass\<close>

text \<open>
  Started at position \<open>k\<close>, the loop does to the bytes from \<open>k\<close> up to \<open>visited data\<close> what
  the left-to-right pass does to them, and leaves every other byte alone.
\<close>

lemma loop_exit:
  assumes "k \<le> 2 ^ 31" "length data \<le> 2 ^ 64 - 2 ^ 31" "visited data \<le> k"
  shows "mutate_loop rand (of_nat k) data g = (data, g)"
proof -
  have "\<not> to_size_t (of_nat k) < string_length data"
  proof (cases "k = 2 ^ 31")
    case True
    then show ?thesis using loop_guard_wrapped [OF assms(2)] by simp
  next
    case False
    then have k: "k < 2 ^ 31" using assms(1) by simp
    then have "length data \<le> k" using assms(3) by (simp add: visited_def)
    moreover have "length data < 2 ^ 64" using assms(2) by simp
    ultimately show ?thesis using loop_guard_below [OF k] by simp
  qed
  then show ?thesis by (subst mutate_loop.simps) simp
qed

lemma spec_window_step:
  assumes "k < visited data"
  shows "take (visited data - k) (drop k data) = data ! k # take (visited data - Suc k) (drop (Suc k) data)"
proof -
  have "k < length data" using assms by (simp add: visited_def)
  then have "drop k data = data ! k # drop (Suc k) data"
    by (simp add: Cons_nth_drop_Suc)
  moreover have "visited data - k = Suc (visited data - Suc k)" using assms by simp
  ultimately show ?thesis by simp
qed

lemma loop_from:
  assumes "n = visited data - k" "k \<le> visited data" "length data \<le> 2 ^ 64 - 2 ^ 31"
  shows "mutate_loop rand (of_nat k) data g =
    (case mutate_spec rand (take (visited data - k) (drop k data)) g of
       (bs, g') \<Rightarrow> (take k data @ bs @ drop (visited data) data, g'))"
  using assms
proof (induction n arbitrary: k data g)
  case 0
  then have "k = visited data" by simp
  moreover have "k \<le> 2 ^ 31" using 0 by (simp add: visited_def)
  ultimately show ?case using 0 by (simp add: loop_exit)
next
  case (Suc n)
  let ?m = "visited data"
  have km: "k < ?m" using Suc.prems by simp
  then have k31: "k < 2 ^ 31" and klen: "k < length data" by (simp_all add: visited_def)
  have len64: "length data < 2 ^ 64" using Suc.prems by simp
  have guard: "to_size_t (of_nat k) < string_length data"
    using loop_guard_below [OF k31 len64] klen by simp
  have next_i: "(of_nat k :: c_int) + 1 = of_nat (Suc k)" by simp
  obtain r g1 where r: "rand g = (r, g1)" by (cases "rand g")
  obtain v g2 where v: "rand g1 = (v, g2)" by (cases "rand g1")
  show ?case
  proof (cases "r mod 2 = 0")
    case True
    let ?c = "of_nat (v mod 256) :: byte"
    let ?data' = "data[k := ?c]"
    obtain bs g' where rest: "mutate_spec rand (take (?m - Suc k) (drop (Suc k) data)) g2 = (bs, g')"
      by (cases "mutate_spec rand (take (?m - Suc k) (drop (Suc k) data)) g2")
    have ih: "mutate_loop rand (of_nat (Suc k)) ?data' g2 =
        (case mutate_spec rand (take (visited ?data' - Suc k) (drop (Suc k) ?data')) g2 of
           (bs, g') \<Rightarrow> (take (Suc k) ?data' @ bs @ drop (visited ?data') ?data', g'))"
      using Suc.prems km by (intro Suc.IH) simp_all
    have "mutate_loop rand (of_nat k) data g = mutate_loop rand (of_nat (Suc k)) ?data' g2"
      using guard r v True string_set_below [OF k31, of data ?c]
      by (subst mutate_loop.simps) (simp only: next_i if_True split simp_thms)
    also have "\<dots> = (take (Suc k) ?data' @ bs @ drop ?m data, g')"
      unfolding ih using km rest by simp
    also have "take (Suc k) ?data' = take k data @ [?c]"
      using klen by (simp add: take_Suc_conv_app_nth)
    finally show ?thesis
      using r v True rest by (simp add: spec_window_step [OF km])
  next
    case False
    then have odd: "r mod 2 = 1" by presburger
    obtain bs g' where rest: "mutate_spec rand (take (?m - Suc k) (drop (Suc k) data)) g1 = (bs, g')"
      by (cases "mutate_spec rand (take (?m - Suc k) (drop (Suc k) data)) g1")
    have ih: "mutate_loop rand (of_nat (Suc k)) data g1 =
        (case mutate_spec rand (take (?m - Suc k) (drop (Suc k) data)) g1 of
           (bs, g') \<Rightarrow> (take (Suc k) data @ bs @ drop ?m data, g'))"
      using Suc.prems km by (intro Suc.IH) simp_all
    have "mutate_loop rand (of_nat k) data g = mutate_loop rand (of_nat (Suc k)) data g1"
      using guard r False
      by (subst mutate_loop.simps) (simp only: next_i if_True if_False split simp_thms)
    also have "\<dots> = (take (Suc k) data @ bs @ drop ?m data, g')"
      unfolding ih using rest by simp
    also have "take (Suc k) data = take k data @ [data ! k]"
      using klen by (simp add: take_Suc_conv_app_nth)
    finally show ?thesis
      using r odd rest by (simp add: spec_window_step [OF km])
  qed
qed

lemma mutate_window:
  assumes "length data \<le> 2 ^ 64 - 2 ^ 31"
  shows "mutate rand data g =
    (case mutate_spec rand (take (visited data) data) g of
       (bs, g') \<Rightarrow> (bs @ drop (visited data) data, g'))"
  using loop_from [of "visited data" data 0 rand g] assms by (simp add: mutate_def)

text \<open>
  On a string of at most \<open>2 ^ 31\<close> bytes the loop is the left-to-right pass: positions in
  increasing order, one deciding draw each, one further draw for a replaced byte, the
  same bytes and the same generator state at the end.
\<close>

lemma mutate_refines_spec:
  assumes "length data \<le> 2 ^ 31"
  shows "mutate rand data g = mutate_spec rand data g"
proof -
  have "visited data = length data" using assms by (simp add: visited_def)
  moreover have "length data \<le> 2 ^ 64 - 2 ^ 31" using assms by simp
  ultimately show ?thesis by (simp add: mutate_window split: prod.split)
qed

subsection \<open>Length\<close>

lemma mutate_loop_length: "length (fst (mutate_loop rand i data g)) = length data"
proof (induction rand i data g rule: mutate_loop.induct)
  case (1 rand i data g)
  show ?case
  proof (cases "to_size_t i < string_length data")
    case False
    then show ?thesis by (subst mutate_loop.simps) simp
  next
    case guard: True
    obtain r g1 where r: "rand g = (r, g1)" by (cases "rand g")
    obtain v g2 where v: "rand g1 = (v, g2)" by (cases "rand g1")
    show ?thesis
    proof (cases "r mod 2 = 0")
      case True
      have "length (fst (mutate_loop rand (i + 1)
              (string_set data (to_size_t i) (of_nat (v mod 256))) g2))
            = length (string_set data (to_size_t i) (of_nat (v mod 256) :: byte))"
        by (rule "1.IH"(1) [OF guard r [symmetric] True v [symmetric]])
      then show ?thesis using guard r v True
        by (subst mutate_loop.simps) (simp add: string_set_def)
    next
      case False
      have "length (fst (mutate_loop rand (i + 1) data g1)) = length data"
        by (rule "1.IH"(2) [OF guard r [symmetric] False])
      then show ?thesis using guard r False
        by (subst mutate_loop.simps) simp
    qed
  qed
qed

lemma length_mutate: "length (fst (mutate rand data g)) = length data"
  by (simp add: mutate_def mutate_loop_length)

lemma mutate_empty: "mutate rand [] g = ([], g)"
  by (simp add: mutate_def mutate_loop.simps string_length_def)

subsection \<open>The three ways \<open>main\<close> ends\<close>

lemma main_usage:
  assumes "length args \<noteq> 1"
  shows "main srand rand now open_file prog args =
    \<lparr>exit_status = 1, stdout = [], stderr = ''Usage: '' @ prog @ '' <input_file>'' @ endl\<rparr>"
  using assms by (simp add: main_def Let_def)

lemma main_open_fails:
  assumes "open_file path = None"
  shows "main srand rand now open_file prog [path] =
    \<lparr>exit_status = 1, stdout = [],
     stderr = ''Error: Unable to open input file '' @ path @ endl\<rparr>"
  using assms by (simp add: main_def Let_def)

lemma main_opened:
  assumes "open_file path = Some data"
  shows "main srand rand now open_file prog [path] =
    \<lparr>exit_status = 0, stdout = fst (mutate rand data (srand (word_of_int now))) @ [newline],
     stderr = []\<rparr>"
  using assms by (simp add: main_def Let_def split: prod.split)

subsection \<open>The all-zero generator on a long string\<close>

text \<open>
  Every draw of \<open>zero_rand\<close> is 0: each position the loop reaches is replaced by the byte 0
  and costs two draws.
\<close>

lemma mutate_spec_zero_rand:
  "mutate_spec zero_rand bs c = (replicate (length bs) 0, c + 2 * length bs)"
  by (induction bs arbitrary: c) (simp_all add: zero_rand_def)

lemma mutate_zero_rand:
  assumes "length data \<le> 2 ^ 64 - 2 ^ 31"
  shows "mutate zero_rand data c =
    (replicate (visited data) 0 @ drop (visited data) data, c + 2 * visited data)"
proof -
  have "length (take (visited data) data) = visited data"
    by (simp add: visited_def)
  then show ?thesis
    by (simp add: mutate_window [OF assms] mutate_spec_zero_rand)
qed

lemma visited_long: "visited (replicate (2 ^ 31 + 1) b) = 2 ^ 31"
  by (simp add: visited_def)

lemma mutate_zero_rand_long:
  "mutate zero_rand (replicate (2 ^ 31 + 1) b) c = (replicate (2 ^ 31) 0 @ [b], c + 2 ^ 32)"
proof -
  have "length (replicate (2 ^ 31 + 1) b) \<le> 2 ^ 64 - 2 ^ 31" by simp
  from mutate_zero_rand [OF this, of c] show ?thesis
    unfolding visited_long by simp
qed

subsection \<open>The outcome at one position\<close>

lemma mutate_spec_length: "length (fst (mutate_spec rand bs g)) = length bs"
  by (induction bs arbitrary: g) (simp_all add: case_prod_beta)

lemma mutate_spec_append:
  "mutate_spec rand (xs @ ys) g =
    (case mutate_spec rand xs g of (xs', g1) \<Rightarrow>
       case mutate_spec rand ys g1 of (ys', g2) \<Rightarrow> (xs' @ ys', g2))"
  by (induction xs arbitrary: g) (simp_all add: case_prod_beta)

lemma history_consumed:
  "draws_for (length bs) pre \<Longrightarrow> snd (mutate_spec rand_list bs (pre @ s)) = s"
proof (induction bs arbitrary: pre)
  case Nil
  then show ?case by simp
next
  case (Cons b bs)
  then obtain r ds where pre: "pre = r # ds" by (cases pre) auto
  show ?case
  proof (cases "r mod 2 = 1")
    case True
    then have "draws_for (length bs) ds" using Cons.prems pre by simp
    then have "snd (mutate_spec rand_list bs (ds @ s)) = s" by (rule Cons.IH)
    then show ?thesis using pre True by (simp add: case_prod_beta)
  next
    case False
    then obtain v ds' where ds: "ds = v # ds'" and h: "draws_for (length bs) ds'"
      using Cons.prems pre by (cases ds) auto
    have "snd (mutate_spec rand_list bs (ds' @ s)) = s" using h by (rule Cons.IH)
    then show ?thesis using pre ds False by (simp add: case_prod_beta)
  qed
qed

lemma position_outcome_spec:
  assumes "k < length data" "draws_for k pre"
  shows "fst (mutate_spec rand_list data (pre @ r # v # rest)) ! k =
    (if r mod 2 = 0 then of_nat (v mod 256) else data ! k)"
proof -
  let ?g = "pre @ r # v # rest"
  have split: "data = take k data @ data ! k # drop (Suc k) data"
    using assms(1) by (simp add: id_take_nth_drop [symmetric])
  have lenk: "length (take k data) = k" using assms(1) by simp
  obtain xs' g1 where pref: "mutate_spec rand_list (take k data) ?g = (xs', g1)"
    by (cases "mutate_spec rand_list (take k data) ?g")
  have "length xs' = k" using mutate_spec_length [of rand_list "take k data" ?g] pref lenk by simp
  moreover have "g1 = r # v # rest"
    using history_consumed [of "take k data" pre "r # v # rest"] assms(2) lenk pref by simp
  moreover obtain ys' g2 where suff: "mutate_spec rand_list (data ! k # drop (Suc k) data) g1 = (ys', g2)"
    by (cases "mutate_spec rand_list (data ! k # drop (Suc k) data) g1")
  moreover have "mutate_spec rand_list data ?g = (xs' @ ys', g2)"
    using pref suff by (subst split) (simp add: mutate_spec_append)
  ultimately show ?thesis
    by (auto simp: nth_append case_prod_beta split: if_splits)
qed

text \<open>
  The loop reaches position \<open>k\<close> when \<open>k < 2 ^ 31\<close>; the string is one that fits in memory
  (\<open>max_size()\<close> of a \<open>std::string\<close> is below \<open>2 ^ 63\<close>).
\<close>

lemma position_outcome:
  assumes "length data < 2 ^ 63" and "k < length data" and "k < 2 ^ 31" and "draws_for k pre"
  shows "fst (mutate rand_list data (pre @ r # v # rest)) ! k =
    (if r mod 2 = 0 then of_nat (v mod 256) else data ! k)"
proof -
  let ?m = "visited data"
  let ?g = "pre @ r # v # rest"
  have km: "k < ?m" using assms(2,3) by (simp add: visited_def)
  have "length data \<le> 2 ^ 64 - 2 ^ 31" using assms(1) by simp
  then have "fst (mutate rand_list data ?g)
      = fst (mutate_spec rand_list (take ?m data) ?g) @ drop ?m data"
    by (simp add: mutate_window case_prod_beta)
  moreover have "length (fst (mutate_spec rand_list (take ?m data) ?g)) = ?m"
    by (simp add: mutate_spec_length visited_def)
  ultimately have "fst (mutate rand_list data ?g) ! k
      = fst (mutate_spec rand_list (take ?m data) ?g) ! k"
    using km by (simp add: nth_append)
  also have "\<dots> = (if r mod 2 = 0 then of_nat (v mod 256) else take ?m data ! k)"
    using km assms(2,4) by (intro position_outcome_spec) simp_all
  finally show ?thesis using km by simp
qed

subsection \<open>Counting draws\<close>

lemma card_even_below: "card {r :: nat. r < 2 * m \<and> r mod 2 = 0} = m"
proof -
  have "{r :: nat. r < 2 * m \<and> r mod 2 = 0} = (\<lambda>j. 2 * j) ` {..<m}"
  proof (intro set_eqI iffI)
    fix r assume "r \<in> {r :: nat. r < 2 * m \<and> r mod 2 = 0}"
    then have "r = 2 * (r div 2)" "r div 2 < m" by auto
    then show "r \<in> (\<lambda>j. 2 * j) ` {..<m}" by blast
  next
    fix r assume "r \<in> (\<lambda>j. 2 * j) ` {..<m}"
    then show "r \<in> {r :: nat. r < 2 * m \<and> r mod 2 = 0}" by auto
  qed
  moreover have "inj_on (\<lambda>j :: nat. 2 * j) {..<m}" by (simp add: inj_on_def)
  ultimately show ?thesis by (simp add: card_image)
qed

lemma card_residue_below:
  assumes "u < 256"
  shows "card {v :: nat. v < 256 * q \<and> v mod 256 = u} = q"
proof -
  have "{v :: nat. v < 256 * q \<and> v mod 256 = u} = (\<lambda>j. 256 * j + u) ` {..<q}"
  proof (intro set_eqI iffI)
    fix v assume "v \<in> {v :: nat. v < 256 * q \<and> v mod 256 = u}"
    then have "v = 256 * (v div 256) + u" "v div 256 < q" by auto
    then show "v \<in> (\<lambda>j. 256 * j + u) ` {..<q}" by blast
  next
    fix v assume "v \<in> (\<lambda>j. 256 * j + u) ` {..<q}"
    then obtain j where "j < q" "v = 256 * j + u" by auto
    then show "v \<in> {v :: nat. v < 256 * q \<and> v mod 256 = u}" using assms by auto
  qed
  moreover have "inj_on (\<lambda>j :: nat. 256 * j + u) {..<q}" by (simp add: inj_on_def)
  ultimately show ?thesis by (simp add: card_image)
qed

lemma replacement_is_byte: "(of_nat (v mod 256) :: byte) = b \<longleftrightarrow> v mod 256 = unat b"
proof
  assume "(of_nat (v mod 256) :: byte) = b"
  then have "unat b = unat (of_nat (v mod 256) :: byte)" by simp
  also have "\<dots> = v mod 256" by (simp add: unat_of_nat)
  finally show "v mod 256 = unat b" by simp
next
  assume "v mod 256 = unat b"
  then show "(of_nat (v mod 256) :: byte) = b" by simp
qed

lemma card_replacement_differs:
  "card {v :: nat. v < 256 * q \<and> (of_nat (v mod 256) :: byte) \<noteq> b} = 255 * q"
proof -
  let ?same = "{v :: nat. v < 256 * q \<and> v mod 256 = unat b}"
  have "unat b < 256" using unsigned_less [of b, where ?'a = nat] by simp
  then have same: "card ?same = q" by (rule card_residue_below)
  have "{v :: nat. v < 256 * q \<and> (of_nat (v mod 256) :: byte) \<noteq> b} = {..<256 * q} - ?same"
    by (auto simp: replacement_is_byte)
  moreover have "?same \<subseteq> {..<256 * q}" by auto
  moreover have "finite ?same" by simp
  ultimately have "card {v :: nat. v < 256 * q \<and> (of_nat (v mod 256) :: byte) \<noteq> b}
      = 256 * q - q"
    using same by (simp add: card_Diff_subset)
  then show ?thesis by simp
qed

lemma card_changed:
  "card {(r :: nat, v :: nat). r < 256 * q \<and> v < 256 * q
      \<and> (if r mod 2 = 0 then of_nat (v mod 256) else b) \<noteq> (b :: byte)}
   = (128 * q) * (255 * q)"
proof -
  have "{(r :: nat, v :: nat). r < 256 * q \<and> v < 256 * q
      \<and> (if r mod 2 = 0 then of_nat (v mod 256) else b) \<noteq> b}
    = {r. r < 2 * (128 * q) \<and> r mod 2 = 0} \<times> {v. v < 256 * q \<and> (of_nat (v mod 256) :: byte) \<noteq> b}"
    by (auto split: if_splits)
  then show ?thesis
    by (simp only: card_cartesian_product card_even_below card_replacement_differs)
qed

lemma changed_fraction:
  assumes "0 < q"
  shows "real ((128 * q) * (255 * q)) / real ((256 * q) * (256 * q)) = 255 / 512"
  using assms by (simp add: field_simps)

subsection \<open>The chance that a byte changes\<close>

text \<open>
  A byte selected for replacement gets a value from the whole range 0 to 255, its own
  value included, so it may stay as it was. When the two draws at a position that the
  loop reaches are uniform over \<open>0 .. M - 1\<close>, with \<open>M = RAND_MAX + 1\<close> a multiple of 256,
  the byte differs from the input in exactly 255 of 512 cases, after every history \<open>pre\<close>
  of draws for the positions before it.
\<close>

lemma reached_byte_change_probability:
  assumes "0 < M" and "256 dvd M"
    and "length data < 2 ^ 63" and "k < length data" and "k < 2 ^ 31" and "draws_for k pre"
  shows "fst (mutate rand_list data (pre @ 0 # unat c # rest)) ! k = c
    \<and> fst (mutate rand_list data (pre @ 0 # unat (data ! k) # rest)) ! k = data ! k
    \<and> real (card {(r, v). r < M \<and> v < M
          \<and> fst (mutate rand_list data (pre @ r # v # rest)) ! k \<noteq> data ! k}) / real (M * M)
        = 255 / 512
    \<and> (255 / 512 :: real) < 1 / 2"
proof -
  note outcome = position_outcome [OF assms(3,4,5,6)]
  obtain q where M: "M = 256 * q" using assms(2) by (rule dvdE)
  then have q: "0 < q" using assms(1) by simp
  have full_range: "fst (mutate rand_list data (pre @ 0 # unat c' # rest)) ! k = c'" for c'
  proof -
    have "unat c' < 256" using unsigned_less [of c', where ?'a = nat] by simp
    then show ?thesis by (simp add: outcome)
  qed
  have "{(r, v). r < M \<and> v < M
          \<and> fst (mutate rand_list data (pre @ r # v # rest)) ! k \<noteq> data ! k}
      = {(r, v). r < 256 * q \<and> v < 256 * q
          \<and> (if r mod 2 = 0 then of_nat (v mod 256) else data ! k) \<noteq> data ! k}"
    by (simp only: outcome M)
  then have "real (card {(r, v). r < M \<and> v < M
          \<and> fst (mutate rand_list data (pre @ r # v # rest)) ! k \<noteq> data ! k}) / real (M * M)
      = real ((128 * q) * (255 * q)) / real ((256 * q) * (256 * q))"
    by (simp only: card_changed M)
  also have "\<dots> = 255 / 512" using q by (rule changed_fraction)
  finally show ?thesis using full_range by simp
qed

lemma reached_byte_change_probability_instance:
  "(0 :: nat) < 2147483648 \<and> (256 :: nat) dvd 2147483648
   \<and> length [65, 66, 67 :: byte] < 2 ^ 63 \<and> (1 :: nat) < length [65, 66, 67 :: byte]
   \<and> (1 :: nat) < 2 ^ 31 \<and> draws_for 1 [3]
   \<and> fst (mutate rand_list [65, 66, 67] ([3] @ 0 # unat (200 :: byte) # [])) ! 1 = 200
   \<and> fst (mutate rand_list [65, 66, 67] ([3] @ 0 # unat ([65, 66, 67 :: byte] ! 1) # [])) ! 1
       = [65, 66, 67] ! 1
   \<and> real (card {(r, v). r < 2147483648 \<and> v < 2147483648
          \<and> fst (mutate rand_list [65, 66, 67] ([3] @ r # v # [])) ! 1 \<noteq> [65, 66, 67] ! 1})
        / real (2147483648 * 2147483648) = 255 / 512"
  using reached_byte_change_probability [of 2147483648 "[65, 66, 67]" 1 "[3]" 200 "[]"]
  by simp

text \<open>
  A position from \<open>2 ^ 31\<close> on is never reached: its byte comes out as it went in, whatever
  the generator draws.
\<close>

lemma untouched_beyond_wrap:
  assumes "2 ^ 31 \<le> k" and "k < length data" and "length data < 2 ^ 63"
  shows "fst (mutate rand data g) ! k = data ! k"
proof -
  let ?m = "visited data"
  have m: "?m = 2 ^ 31" using assms(1,2) by (simp add: visited_def)
  have "length data \<le> 2 ^ 64 - 2 ^ 31" using assms(3) by simp
  then have "fst (mutate rand data g)
      = fst (mutate_spec rand (take ?m data) g) @ drop ?m data"
    by (simp add: mutate_window case_prod_beta)
  moreover have "length (fst (mutate_spec rand (take ?m data) g)) = ?m"
    by (simp add: mutate_spec_length visited_def)
  ultimately have "fst (mutate rand data g) ! k = drop ?m data ! (k - ?m)"
    using assms(1) m by (simp add: nth_append)
  also have "\<dots> = data ! k" using assms(1,2) m by simp
  finally show ?thesis .
qed

lemma draws_for_all_kept: "draws_for n (replicate n 1)"
  by (induction n) simp_all

lemma last_byte_unchanged:
  "fst (mutate rand_list (replicate (2 ^ 31 + 1) 1) (replicate (2 ^ 31) 1 @ [r, v])) ! (2 ^ 31) = 1"
proof -
  have "fst (mutate rand_list (replicate (2 ^ 31 + 1) 1) (replicate (2 ^ 31) 1 @ [r, v])) ! (2 ^ 31)
      = replicate (2 ^ 31 + 1) (1 :: byte) ! (2 ^ 31)"
    by (rule untouched_beyond_wrap) simp_all
  then show ?thesis by simp
qed

lemma last_byte_spec:
  "fst (mutate_spec rand_list (replicate (2 ^ 31 + 1) 1) (replicate (2 ^ 31) 1 @ [0, 0])) ! (2 ^ 31) = 0"
proof -
  have "fst (mutate_spec rand_list (replicate (2 ^ 31 + 1) 1) (replicate (2 ^ 31) 1 @ 0 # 0 # [])) ! (2 ^ 31)
      = (if (0 :: nat) mod 2 = 0 then of_nat (0 mod 256) else replicate (2 ^ 31 + 1) (1 :: byte) ! (2 ^ 31))"
  proof (rule position_outcome_spec)
    show "2 ^ 31 < length (replicate (2 ^ 31 + 1) (1 :: byte))" by simp
    show "draws_for (2 ^ 31) (replicate (2 ^ 31) 1)" by (rule draws_for_all_kept)
  qed
  then show ?thesis by simp
qed

section \<open>The claims\<close>

text \<open>
  Claim C1: for every input byte sequence and every generator state, the mutation visits
  the byte positions in increasing order and takes one deciding draw at each, and one
  further draw when the decision is to replace. The code does so up to position
  \<open>2 ^ 31 - 1\<close> (lemma \<open>mutate_refines_spec\<close>); then the \<open>int\<close> counter wraps, the loop
  ends, and later positions get no draw. On \<open>2 ^ 31 + 1\<close> bytes with the all-zero
  generator the loop takes \<open>2 ^ 32\<close> draws and leaves the last byte, where the pass the
  claim describes takes \<open>2 ^ 32 + 2\<close> and replaces it.
\<close>

theorem counter_wrap_skips_draws:
  "mutate zero_rand (replicate (2 ^ 31 + 1) 1) 0 = (replicate (2 ^ 31) 0 @ [1], 2 ^ 32)
   \<and> mutate_spec zero_rand (replicate (2 ^ 31 + 1) 1) 0 = (replicate (2 ^ 31 + 1) 0, 2 ^ 32 + 2)"
  using mutate_zero_rand_long [of 1 0] by (simp add: mutate_spec_zero_rand)

text \<open>
  Claim C2: the mutated byte sequence has the length of the input, for every input and
  every generator: bytes are replaced in place, none inserted or deleted.
\<close>

theorem mutate_length: "length (fst (mutate rand data g)) = length data"
proof -
  have "length (fst (mutate_loop rand 0 data g)) = length data"
    by (rule mutate_loop_length)
  then show ?thesis
    by (simp add: mutate_def)
qed

text \<open>
  Claim C3: when the file opens and holds \<open>L\<close> bytes, the program exits with status 0 and
  its standard output is the \<open>L\<close> mutated bytes followed by one line feed, \<open>L + 1\<close> bytes
  in all.
\<close>

theorem main_success:
  assumes "open_file path = Some data"
  shows "exit_status (main srand rand now open_file prog [path]) = 0
    \<and> stdout (main srand rand now open_file prog [path])
        = fst (mutate rand data (srand (word_of_int now))) @ [newline]
    \<and> length (stdout (main srand rand now open_file prog [path])) = length data + 1
    \<and> stderr (main srand rand now open_file prog [path]) = []"
  using main_opened [of open_file path data srand rand now prog] assms
  by (simp add: length_mutate)

theorem main_success_witness:
  "(\<lambda>p. if p = ''seed.c'' then Some [104, 105, 33 :: byte] else None) ''seed.c'' = Some [104, 105, 33]
   \<and> exit_status (main counter_srand counter_rand 7
         (\<lambda>p. if p = ''seed.c'' then Some [104, 105, 33] else None) ''fuzz'' [''seed.c'']) = 0
   \<and> stdout (main counter_srand counter_rand 7
         (\<lambda>p. if p = ''seed.c'' then Some [104, 105, 33] else None) ''fuzz'' [''seed.c''])
       = [104, 9, 11, 10]
   \<and> length (stdout (main counter_srand counter_rand 7
         (\<lambda>p. if p = ''seed.c'' then Some [104, 105, 33] else None) ''fuzz'' [''seed.c''])) = 3 + 1"
  using main_success [of "\<lambda>p. if p = ''seed.c'' then Some [104, 105, 33] else None" "''seed.c''"
      "[104, 105, 33]" counter_srand counter_rand 7 "''fuzz''"]
  by (simp add: mutate_def mutate_loop.simps to_size_t_def string_length_def string_set_def
      counter_srand_def counter_rand_def newline_def)

text \<open>
  Claim C4: with any number of arguments after the program name other than one, the
  program prints \<open>Usage: <program> <input_file>\<close> and a line feed to the error stream,
  exits with status 1 and writes nothing to standard output.
\<close>

theorem usage_error:
  assumes "length args \<noteq> 1"
  shows "main srand rand now open_file prog args =
    \<lparr>exit_status = 1, stdout = [], stderr = ''Usage: '' @ prog @ '' <input_file>'' @ endl\<rparr>"
  using assms by (rule main_usage)

theorem usage_error_witness:
  "length ([] :: string list) \<noteq> 1 \<and> length [''a.c'', ''b.c''] \<noteq> 1
   \<and> main counter_srand counter_rand 7 (\<lambda>p. Some [1, 2]) ''./fuzz'' [] =
       \<lparr>exit_status = 1, stdout = [], stderr = ''Usage: ./fuzz <input_file>'' @ endl\<rparr>
   \<and> main counter_srand counter_rand 7 (\<lambda>p. Some [1, 2]) ''./fuzz'' [''a.c'', ''b.c''] =
       \<lparr>exit_status = 1, stdout = [], stderr = ''Usage: ./fuzz <input_file>'' @ endl\<rparr>"
  using usage_error [of "[]" counter_srand counter_rand 7 "\<lambda>p. Some [1, 2]" "''./fuzz''"]
    usage_error [of "[''a.c'', ''b.c'']" counter_srand counter_rand 7 "\<lambda>p. Some [1, 2]" "''./fuzz''"]
  by simp

text \<open>
  Claim C5: when the path cannot be opened, the program prints
  \<open>Error: Unable to open input file <path>\<close> and a line feed to the error stream, exits
  with status 1 and writes nothing to standard output.
\<close>

theorem io_error:
  assumes "open_file path = None"
  shows "main srand rand now open_file prog [path] =
    \<lparr>exit_status = 1, stdout = [],
     stderr = ''Error: Unable to open input file '' @ path @ endl\<rparr>"
  using assms by (rule main_open_fails)

theorem io_error_witness:
  "(\<lambda>p. if p = ''seed.c'' then Some [104, 105, 33 :: byte] else None) ''missing.c'' = None
   \<and> main counter_srand counter_rand 7
        (\<lambda>p. if p = ''seed.c'' then Some [104, 105, 33] else None) ''./fuzz'' [''missing.c''] =
       \<lparr>exit_status = 1, stdout = [],
        stderr = ''Error: Unable to open input file missing.c'' @ endl\<rparr>"
  using io_error [of "\<lambda>p. if p = ''seed.c'' then Some [104, 105, 33] else None" "''missing.c''"
      counter_srand counter_rand 7 "''./fuzz''"]
  by simp

text \<open>
  Claim C6: two invocations whose clock values give the same seed (the same second, in
  particular) and whose input files hold the same bytes end in the same outcome, byte
  for byte, whatever the program name and the path.
\<close>

theorem same_seed_same_output:
  assumes "(word_of_int now1 :: 32 word) = word_of_int now2"
    and "open_file1 path1 = Some data" and "open_file2 path2 = Some data"
  shows "main srand rand now1 open_file1 prog1 [path1] = main srand rand now2 open_file2 prog2 [path2]"
  using main_opened [of open_file1 path1 data srand rand now1 prog1]
    main_opened [of open_file2 path2 data srand rand now2 prog2] assms
  by simp

theorem same_seed_same_output_witness:
  "(word_of_int 1762128000 :: 32 word) = word_of_int 1762128000
   \<and> (\<lambda>p. if p = ''seed.c'' then Some [104, 105, 33 :: byte] else None) ''seed.c'' = Some [104, 105, 33]
   \<and> (\<lambda>p. Some [104, 105, 33 :: byte]) ''copy.c'' = Some [104, 105, 33]
   \<and> main counter_srand counter_rand 1762128000
        (\<lambda>p. if p = ''seed.c'' then Some [104, 105, 33] else None) ''./fuzz'' [''seed.c'']
     = main counter_srand counter_rand 1762128000 (\<lambda>p. Some [104, 105, 33]) ''fuzz'' [''copy.c'']"
  using same_seed_same_output [of 1762128000 1762128000
      "\<lambda>p. if p = ''seed.c'' then Some [104, 105, 33] else None" "''seed.c''" "[104, 105, 33]"
      "\<lambda>p. Some [104, 105, 33]" "''copy.c''" counter_srand counter_rand "''./fuzz''" "''fuzz''"]
  by simp

text \<open>
  Claim C7: on an empty input the loop takes no draw (the generator state comes back
  as it went in, for every generator), and the program writes one line feed and nothing
  else and exits with status 0.
\<close>

theorem empty_input:
  assumes "open_file path = Some []"
  shows "mutate rand [] g = ([], g)
    \<and> main srand rand now open_file prog [path] = \<lparr>exit_status = 0, stdout = [newline], stderr = []\<rparr>"
  using main_opened [of open_file path "[]" srand rand now prog] assms
  by (simp add: mutate_empty)

theorem empty_input_witness:
  "(\<lambda>p. if p = ''empty'' then Some ([] :: byte list) else None) ''empty'' = Some []
   \<and> mutate counter_rand [] 7 = ([], 7)
   \<and> main counter_srand counter_rand 7 (\<lambda>p. if p = ''empty'' then Some [] else None) ''./fuzz'' [''empty'']
     = \<lparr>exit_status = 0, stdout = [10], stderr = []\<rparr>"
  using empty_input [of "\<lambda>p. if p = ''empty'' then Some [] else None" "''empty''"
      counter_rand 7 counter_srand 7 "''./fuzz''"]
  by (simp add: newline_def)

text \<open>
  Claim C8: the loop cannot fail, for every input: it terminates and visits every byte
  position once. It terminates (\<open>mutate_loop\<close> is total), but it does not visit the
  positions from \<open>2 ^ 31\<close> on: with the all-zero generator, which replaces every byte it
  visits by 0, the byte at position \<open>2 ^ 31\<close> of a string of \<open>2 ^ 31 + 1\<close> ones is still 1.
\<close>

theorem counter_wrap_leaves_byte_unvisited:
  "fst (mutate zero_rand (replicate (2 ^ 31 + 1) 1) 0) ! (2 ^ 31) = 1
   \<and> fst (mutate_spec zero_rand (replicate (2 ^ 31 + 1) 1) 0) ! (2 ^ 31) = 0"
  using mutate_zero_rand_long [of 1 0] by (simp add: mutate_spec_zero_rand nth_append)

text \<open>
  Claim C9: a run over the output of an earlier run never gives that output back, for
  every input and every two clock values: each run appends a line feed, so the first
  output is one byte longer than the input and the second one byte longer again. No
  byte sequence is a fixed point.
\<close>

theorem remutation_differs:
  assumes "open_file1 path1 = Some data"
    and "open_file2 path2 = Some (stdout (main srand rand now1 open_file1 prog1 [path1]))"
  shows "stdout (main srand rand now1 open_file1 prog1 [path1]) \<noteq> data
    \<and> stdout (main srand rand now2 open_file2 prog2 [path2])
        \<noteq> stdout (main srand rand now1 open_file1 prog1 [path1])
    \<and> length (stdout (main srand rand now2 open_file2 prog2 [path2])) = length data + 2"
proof -
  let ?out1 = "stdout (main srand rand now1 open_file1 prog1 [path1])"
  let ?out2 = "stdout (main srand rand now2 open_file2 prog2 [path2])"
  have len1: "length ?out1 = length data + 1"
    using main_opened [of open_file1 path1 data srand rand now1 prog1] assms(1)
    by (simp add: length_mutate)
  have len2: "length ?out2 = length ?out1 + 1"
    using main_opened [of open_file2 path2 ?out1 srand rand now2 prog2] assms(2)
    by (simp add: length_mutate)
  have "?out1 \<noteq> data" using len1 by auto
  moreover have "?out2 \<noteq> ?out1" using len2 by auto
  ultimately show ?thesis using len1 len2 by simp
qed

theorem remutation_differs_witness:
  "(\<lambda>p. if p = ''seed.c'' then Some [104, 105 :: byte] else None) ''seed.c'' = Some [104, 105]
   \<and> (\<lambda>p. Some [104, 9, 10 :: byte]) ''out1''
       = Some (stdout (main counter_srand counter_rand 7
           (\<lambda>p. if p = ''seed.c'' then Some [104, 105] else None) ''./fuzz'' [''seed.c'']))
   \<and> stdout (main counter_srand counter_rand 7
           (\<lambda>p. if p = ''seed.c'' then Some [104, 105] else None) ''./fuzz'' [''seed.c'']) \<noteq> [104, 105]
   \<and> stdout (main counter_srand counter_rand 8 (\<lambda>p. Some [104, 9, 10]) ''./fuzz'' [''out1''])
       \<noteq> stdout (main counter_srand counter_rand 7
           (\<lambda>p. if p = ''seed.c'' then Some [104, 105] else None) ''./fuzz'' [''seed.c''])
   \<and> length (stdout (main counter_srand counter_rand 8 (\<lambda>p. Some [104, 9, 10]) ''./fuzz'' [''out1'']))
       = 2 + 2"
proof -
  have first: "stdout (main counter_srand counter_rand 7
      (\<lambda>p. if p = ''seed.c'' then Some [104, 105] else None) ''./fuzz'' [''seed.c'']) = [104, 9, 10]"
    by (simp add: main_def mutate_def mutate_loop.simps to_size_t_def string_length_def
        string_set_def counter_srand_def counter_rand_def newline_def)
  show ?thesis
    using remutation_differs [of "\<lambda>p. if p = ''seed.c'' then Some [104, 105] else None" "''seed.c''"
        "[104, 105]" "\<lambda>p. Some [104, 9, 10]" "''out1''" counter_srand counter_rand 7 "''./fuzz''"
        8 "''./fuzz''"]
    by (simp add: first)
qed

text \<open>
  Claim C10: a byte selected for replacement gets a value from the whole range 0 to 255,
  and under a uniform generator any given byte of the output differs from the input with
  probability 255/512. At the positions the loop reaches this is so (lemma
  \<open>reached_byte_change_probability\<close>). At position \<open>2 ^ 31\<close> of a string of \<open>2 ^ 31 + 1\<close>
  ones it is not: after a history that keeps every earlier byte, the draws 0 and 0 select
  the byte for replacement by 0, yet it is still 1, where the pass the claim describes
  makes it 0; and of the \<open>2 ^ 31 * 2 ^ 31\<close> pairs of draws none changes the byte, so the
  fraction is 0.
\<close>

theorem counter_wrap_never_changes_byte:
  "fst (mutate rand_list (replicate (2 ^ 31 + 1) 1) (replicate (2 ^ 31) 1 @ [0, 0])) ! (2 ^ 31) = 1
   \<and> fst (mutate_spec rand_list (replicate (2 ^ 31 + 1) 1) (replicate (2 ^ 31) 1 @ [0, 0])) ! (2 ^ 31) = 0
   \<and> real (card {(r, v). r < 2 ^ 31 \<and> v < 2 ^ 31
        \<and> fst (mutate rand_list (replicate (2 ^ 31 + 1) 1) (replicate (2 ^ 31) 1 @ [r, v])) ! (2 ^ 31)
          \<noteq> replicate (2 ^ 31 + 1) 1 ! (2 ^ 31)}) / real (2 ^ 31 * 2 ^ 31) = 0"
proof -
  have "{(r :: nat, v :: nat). r < 2 ^ 31 \<and> v < 2 ^ 31
        \<and> fst (mutate rand_list (replicate (2 ^ 31 + 1) 1) (replicate (2 ^ 31) 1 @ [r, v])) ! (2 ^ 31)
          \<noteq> replicate (2 ^ 31 + 1) 1 ! (2 ^ 31)} = {}"
    using last_byte_unchanged by simp
  then have "card {(r :: nat, v :: nat). r < 2 ^ 31 \<and> v < 2 ^ 31
        \<and> fst (mutate rand_list (replicate (2 ^ 31 + 1) 1) (replicate (2 ^ 31) 1 @ [r, v])) ! (2 ^ 31)
          \<noteq> replicate (2 ^ 31 + 1) 1 ! (2 ^ 31)} = 0"
    by (simp only: card.empty)
  then show ?thesis
    using last_byte_unchanged [of 0 0] last_byte_spec by (simp only: of_nat_0 div_0 simp_thms)
qed

end
